theory Spec2Isabelle
  imports Main "HOL-Library.Word" "HOL-Library.Signed_Division"
begin

section \<open>The disk buffer of buffer.go\<close>

text \<open>
  The Go type \<^verbatim>\<open>Buffer\<close> keeps the first \<^verbatim>\<open>maxInMemorySize\<close> bytes in a
  \<^verbatim>\<open>bytes.Buffer\<close> and the rest in a temporary file. The model below follows
  buffer.go function by function. What the operating system and the cipher library decide
  (whether a temporary file can be created, how many bytes the disk accepts, whether a
  file opens) is an explicit argument of type \<open>env\<close>, so that every error return of the
  source is a branch of the model. A Go panic is the value \<open>Panic\<close>.

  Modelling decisions:
  \<^item> \<^verbatim>\<open>int\<close> and \<^verbatim>\<open>int64\<close> are \<open>int\<close>: the counters only add lengths of byte slices
    that exist in memory or on disk, so they stay far from the 64-bit bounds.
  \<^item> \<^verbatim>\<open>bytes.Buffer\<close> is the list of its unread bytes: \<^verbatim>\<open>Len()\<close> and \<^verbatim>\<open>Bytes()\<close> see
    exactly that list, \<^verbatim>\<open>Write\<close> appends to it, \<^verbatim>\<open>Read\<close> removes a prefix of it and
    returns \<^verbatim>\<open>io.EOF\<close> when it is empty and the destination is not.
  \<^item> The file system is the field \<open>disk\<close>, a map from path to content. It is not a field
    of the Go struct; it is carried in the same record so that one state is passed around.
  \<^item> The cipher (package sio) is outside the repository. Its contract is taken as
    transparent: what an encrypting writer wrote, a decrypting reader returns. The content
    of an encrypted file is therefore recorded as plaintext, and the kind of the handle
    (raw, decrypting, decrypting with positional reads) is kept because the source
    dispatches on it. The key itself plays no role and is left out.
  \<^item> A slice passed to \<^verbatim>\<open>Read\<close> or \<^verbatim>\<open>ReadAt\<close> is given by its length; the model
    returns the bytes stored in its first \<^verbatim>\<open>n\<close> cells.
\<close>

type_synonym byte = "8 word"

datatype err =
    ErrBufferFinished
  | EOF
  | ErrNegativeOffset
  | ErrTempFile
  | ErrEncryptStream
  | ErrDecryptStream
  | ErrOpenFile
  | ErrNoReaderAt
  | ErrIO
  | ErrRandom

datatype 'a outcome = Return 'a | Panic

text \<open>The value behind \<^verbatim>\<open>writeFile\<close>: the file itself or sio's encrypting writer on it.\<close>

datatype writer = FileWriter string | EncryptWriter string

text \<open>
  The value behind \<^verbatim>\<open>readFile\<close>, with the path it was opened on and its sequential
  position: \<^verbatim>\<open>*os.File\<close>, \<^verbatim>\<open>sioDecryptReaderWrapper\<close> (no \<^verbatim>\<open>ReadAt\<close> method) or
  \<^verbatim>\<open>sioDecryptReaderAtWrapper\<close>.
\<close>

datatype reader = OsFile string nat | DecryptReader string nat | DecryptReaderAt string nat

record env =
  tempfile :: "string option"
  cipher_ok :: bool
  disk_room :: nat
  open_ok :: bool
  read_ok :: bool

record buffer =
  maxInMemorySize :: int
  writingFinished :: bool
  readingFinished :: bool
  size_b :: int
  offset :: int
  tempFileDir :: string
  encrypt :: bool
  buff :: "byte list"
  writeFile :: "writer option"
  readFile :: "reader option"
  useFile :: bool
  filename :: string
  disk :: "string \<rightharpoonup> byte list"

subsection \<open>Construction\<close>

text \<open>
  \<^verbatim>\<open>NewBufferWithMaxMemorySize\<close>: \<^verbatim>\<open>b.buff.Grow(maxInMemorySize / 2)\<close> panics on a negative
  count; Go's \<^verbatim>\<open>/\<close> truncates towards zero.
\<close>

definition NewBufferWithMaxMemorySize :: "(string \<rightharpoonup> byte list) \<Rightarrow> int \<Rightarrow> buffer outcome" where
  "NewBufferWithMaxMemorySize fs m =
     (if m sdiv 2 < 0 then Panic
      else Return \<lparr> maxInMemorySize = m, writingFinished = False, readingFinished = False,
                    size_b = 0, offset = 0, tempFileDir = [], encrypt = False, buff = [],
                    writeFile = None, readFile = None, useFile = False, filename = [],
                    disk = fs \<rparr>)"

text \<open>\<^verbatim>\<open>EnableEncryption\<close> sets the flag before it asks for random bytes.\<close>

definition EnableEncryption :: "bool \<Rightarrow> buffer \<Rightarrow> err option \<times> buffer" where
  "EnableEncryption rand_ok b =
     (if rand_ok then (None, b\<lparr>encrypt := True\<rparr>) else (Some ErrRandom, b\<lparr>encrypt := True\<rparr>))"

subsection \<open>Files\<close>

fun writer_name :: "writer \<Rightarrow> string" where
  "writer_name (FileWriter p) = p"
| "writer_name (EncryptWriter p) = p"

fun reader_name :: "reader \<Rightarrow> string" where
  "reader_name (OsFile p i) = p"
| "reader_name (DecryptReader p i) = p"
| "reader_name (DecryptReaderAt p i) = p"

fun reader_pos :: "reader \<Rightarrow> nat" where
  "reader_pos (OsFile p i) = i"
| "reader_pos (DecryptReader p i) = i"
| "reader_pos (DecryptReaderAt p i) = i"

fun reader_advance :: "nat \<Rightarrow> reader \<Rightarrow> reader" where
  "reader_advance n (OsFile p i) = OsFile p (i + n)"
| "reader_advance n (DecryptReader p i) = DecryptReader p (i + n)"
| "reader_advance n (DecryptReaderAt p i) = DecryptReaderAt p (i + n)"

text \<open>Whether the dynamic type has a \<^verbatim>\<open>ReadAt\<close> method (the assertion \<^verbatim>\<open>b.readFile.(io.ReaderAt)\<close>).\<close>

fun is_ReaderAt :: "reader \<Rightarrow> bool" where
  "is_ReaderAt (OsFile p i) = True"
| "is_ReaderAt (DecryptReader p i) = False"
| "is_ReaderAt (DecryptReaderAt p i) = True"

text \<open>
  \<^verbatim>\<open>w.Write(data)\<close> on the write handle: the disk takes \<open>disk_room\<close> bytes at most, and a
  short write comes with an error. The new content is the old one followed by what was
  accepted.
\<close>

definition file_Write :: "env \<Rightarrow> byte list \<Rightarrow> writer \<Rightarrow> (string \<rightharpoonup> byte list)
    \<Rightarrow> int \<times> err option \<times> (string \<rightharpoonup> byte list)" where
  "file_Write e data w d =
     (let acc = take (disk_room e) data;
          d' = d(writer_name w := map_option (\<lambda>c. c @ acc) (d (writer_name w)))
      in (int (length acc), (if length acc < length data then Some ErrIO else None), d'))"

text \<open>
  \<^verbatim>\<open>r.Read(p)\<close> with \<open>k = len(p)\<close>: nothing for an empty \<open>p\<close>, \<^verbatim>\<open>io.EOF\<close> at the end of
  the file, otherwise as many bytes as are left, up to \<open>k\<close>.
\<close>

definition file_Read :: "env \<Rightarrow> nat \<Rightarrow> reader \<Rightarrow> (string \<rightharpoonup> byte list)
    \<Rightarrow> byte list \<times> err option \<times> reader" where
  "file_Read e k r d =
     (if k = 0 then ([], None, r)
      else if \<not> read_ok e then ([], Some ErrIO, r)
      else case d (reader_name r) of
             None \<Rightarrow> ([], Some ErrIO, r)
           | Some c \<Rightarrow>
               (let rest = drop (reader_pos r) c
                in if rest = [] then ([], Some EOF, r)
                   else (take k rest, None, reader_advance (length (take k rest)) r)))"

text \<open>
  \<^verbatim>\<open>r.ReadAt(p, off)\<close> with \<open>k = len(p)\<close> and \<open>off \<ge> 0\<close>: the bytes from \<open>off\<close> on, and
  \<^verbatim>\<open>io.EOF\<close> when fewer than \<open>k\<close> are there. The sequential position is untouched.
\<close>

definition file_ReadAt :: "env \<Rightarrow> nat \<Rightarrow> int \<Rightarrow> reader \<Rightarrow> (string \<rightharpoonup> byte list)
    \<Rightarrow> byte list \<times> err option" where
  "file_ReadAt e k off r d =
     (if k = 0 then ([], None)
      else if off < 0 \<or> \<not> read_ok e then ([], Some ErrIO)
      else case d (reader_name r) of
             None \<Rightarrow> ([], Some ErrIO)
           | Some c \<Rightarrow>
               (let got = take k (drop (nat off) c)
                in (got, if length got < k then Some EOF else None)))"

subsection \<open>Write\<close>

text \<open>
  The tail of \<^verbatim>\<open>Write\<close> (lines 183-186): \<^verbatim>\<open>b.writeFile.Write(data)\<close> on a nil interface
  is a nil dereference. \<open>n\<close> is the count so far; the deferred function adds the final
  count to \<^verbatim>\<open>size\<close>.
\<close>

definition Write_file :: "env \<Rightarrow> byte list \<Rightarrow> int \<Rightarrow> buffer \<Rightarrow> (int \<times> err option \<times> buffer) outcome" where
  "Write_file e data n b =
     (case writeFile b of
        None \<Rightarrow> Panic
      | Some w \<Rightarrow>
          (case file_Write e data w (disk b) of
             (n1, er, d') \<Rightarrow>
               Return (n + n1, er, b\<lparr>disk := d', size_b := size_b b + (n + n1)\<rparr>)))"

definition Write :: "env \<Rightarrow> byte list \<Rightarrow> buffer \<Rightarrow> (int \<times> err option \<times> buffer) outcome" where
  "Write e data b =
     (if writingFinished b then Return (0, Some ErrBufferFinished, b)
      else if \<not> useFile b then
        (if int (length (buff b)) + int (length data) \<le> maxInMemorySize b then
           Return (int (length data), None,
                   b\<lparr>buff := buff b @ data, size_b := size_b b + int (length data)\<rparr>)
         else
           (let bound = maxInMemorySize b - int (length (buff b))
            in if bound < 0 then Panic
               else
                 (let n = bound;
                      b1 = b\<lparr>buff := buff b @ take (nat bound) data\<rparr>;
                      data' = drop (nat bound) data;
                      b2 = b1\<lparr>useFile := True\<rparr>
                  in case tempfile e of
                       None \<Rightarrow> Return (n, Some ErrTempFile, b2\<lparr>size_b := size_b b2 + n\<rparr>)
                     | Some p \<Rightarrow>
                         (let b3 = b2\<lparr>disk := (disk b2)(p \<mapsto> [])\<rparr>
                          in if encrypt b3 then
                               (if \<not> cipher_ok e then
                                  Return (n, Some ErrEncryptStream, b3\<lparr>size_b := size_b b3 + n\<rparr>)
                                else Write_file e data' n
                                       (b3\<lparr>writeFile := Some (EncryptWriter p), filename := p\<rparr>))
                             else Write_file e data' n
                                    (b3\<lparr>writeFile := Some (FileWriter p), filename := p\<rparr>)))))
      else Write_file e data 0 b)"

text \<open>\<^verbatim>\<open>WriteByte\<close> drops the count.\<close>

definition WriteByte :: "env \<Rightarrow> byte \<Rightarrow> buffer \<Rightarrow> (err option \<times> buffer) outcome" where
  "WriteByte e c b =
     (case Write e [c] b of Panic \<Rightarrow> Panic | Return (n, er, b') \<Rightarrow> Return (er, b'))"

subsection \<open>Read\<close>

text \<open>The block that ends the writing phase, shared by \<^verbatim>\<open>Read\<close> and \<^verbatim>\<open>ReadAt\<close>.\<close>

definition finish_writing :: "buffer \<Rightarrow> buffer" where
  "finish_writing b =
     (if \<not> writingFinished b then b\<lparr>writeFile := None, writingFinished := True\<rparr> else b)"

text \<open>
  \<^verbatim>\<open>readFromFile\<close>: opens the file on first use (\<^verbatim>\<open>os.Open\<close> fails on a path that does not
  exist), wraps it in a decrypting reader when encryption is on, and reads sequentially.
\<close>

definition readFromFile :: "env \<Rightarrow> nat \<Rightarrow> buffer \<Rightarrow> byte list \<times> err option \<times> buffer" where
  "readFromFile e k b =
     (case readFile b of
        None \<Rightarrow>
          (if \<not> open_ok e \<or> disk b (filename b) = None then ([], Some ErrOpenFile, b)
           else if encrypt b \<and> \<not> cipher_ok e then ([], Some ErrDecryptStream, b)
           else
             (let r = (if encrypt b then DecryptReader (filename b) 0 else OsFile (filename b) 0)
              in case file_Read e k r (disk b) of
                   (got, er, r') \<Rightarrow> (got, er, b\<lparr>readFile := Some r'\<rparr>)))
      | Some r \<Rightarrow>
          (case file_Read e k r (disk b) of
             (got, er, r') \<Rightarrow> (got, er, b\<lparr>readFile := Some r'\<rparr>)))"

text \<open>
  The deferred function of \<^verbatim>\<open>Read\<close>, run on every return after it was registered:
  \<open>k = len(data)\<close>, \<open>got\<close> the \<^verbatim>\<open>n\<close> bytes returned.
\<close>

definition Read_deferred :: "nat \<Rightarrow> byte list \<Rightarrow> err option \<Rightarrow> buffer \<Rightarrow> byte list \<times> err option \<times> buffer" where
  "Read_deferred k got er b =
     (let b1 = b\<lparr>offset := offset b + int (length got)\<rparr>;
          b2 = (if length got < k then b1\<lparr>readingFinished := True\<rparr> else b1);
          b3 = (if readingFinished b2 \<and> readFile b2 \<noteq> None
                then b2\<lparr>disk := (disk b2)(filename b2 := None), readFile := None, filename := []\<rparr>
                else b2)
      in (got, er, b3))"

definition Read :: "env \<Rightarrow> nat \<Rightarrow> buffer \<Rightarrow> byte list \<times> err option \<times> buffer" where
  "Read e k b =
     (if readingFinished b then ([], Some EOF, b)
      else
        (let b1 = finish_writing b
         in if buff b1 \<noteq> [] then
              (let got = take k (buff b1);
                   b2 = b1\<lparr>buff := drop k (buff b1)\<rparr>
               in if length got = k \<or> \<not> useFile b2 then Read_deferred k got None b2
                  else (case readFromFile e (k - length got) b2 of
                          (got1, er, b3) \<Rightarrow> Read_deferred k (got @ got1) er b3))
            else if useFile b1 then
              (case readFromFile e k b1 of (got, er, b2) \<Rightarrow> Read_deferred k got er b2)
            else Read_deferred k [] (Some EOF) b1))"

text \<open>\<^verbatim>\<open>ReadByte\<close> returns \<^verbatim>\<open>c[0]\<close> of a fresh one-byte slice, which is zero when nothing was read.\<close>

definition ReadByte :: "env \<Rightarrow> buffer \<Rightarrow> byte \<times> err option \<times> buffer" where
  "ReadByte e b =
     (case Read e 1 b of (got, er, b') \<Rightarrow> ((case got of [] \<Rightarrow> 0 | c # cs \<Rightarrow> c), er, b'))"

subsection \<open>ReadAt\<close>

text \<open>
  The file part of \<^verbatim>\<open>ReadAt\<close> (lines 355-385): \<open>mem\<close> are the bytes already taken from
  memory, \<open>k\<close> the length of the rest of the slice, \<open>off\<close> the advanced offset and
  \<open>bufferSize\<close> the length of the memory tier.
\<close>

definition ReadAt_file :: "env \<Rightarrow> byte list \<Rightarrow> nat \<Rightarrow> int \<Rightarrow> int \<Rightarrow> buffer
    \<Rightarrow> (byte list \<times> err option \<times> buffer) + (byte list \<times> buffer)" where
  "ReadAt_file e mem k off bufferSize b =
     (if readFile b = None \<and> (\<not> open_ok e \<or> disk b (filename b) = None)
        then Inl (mem, Some ErrOpenFile, b)
      else if readFile b = None \<and> encrypt b \<and> \<not> cipher_ok e
        then Inl (mem, Some ErrDecryptStream, b)
      else
        (let r = (case readFile b of
                    None \<Rightarrow> (if encrypt b then DecryptReaderAt (filename b) 0
                              else OsFile (filename b) 0)
                  | Some r0 \<Rightarrow> r0);
             b1 = b\<lparr>readFile := Some r\<rparr>
         in if is_ReaderAt r then
              (case file_ReadAt e k (off - bufferSize) r (disk b1) of
                 (got, er) \<Rightarrow>
                   (if er \<noteq> None \<and> er \<noteq> Some EOF then Inl (mem @ got, er, b1)
                    else Inr (mem @ got, b1)))
            else Inl (mem, Some ErrNoReaderAt, b1)))"

definition ReadAt :: "env \<Rightarrow> nat \<Rightarrow> int \<Rightarrow> buffer \<Rightarrow> byte list \<times> err option \<times> buffer" where
  "ReadAt e k off b =
     (if off < 0 then ([], Some ErrNegativeOffset, b)
      else if k = 0 then ([], None, b)
      else if off \<ge> size_b b then ([], Some EOF, b)
      else
        (let b1 = finish_writing b;
             bufferSize = int (length (buff b1));
             mem = (if off < bufferSize
                    then take (nat (min (bufferSize - off) (int k))) (drop (nat off) (buff b1))
                    else []);
             k' = k - length mem;
             off' = off + int (length mem)
         in case (if k' > 0 \<and> useFile b1 then ReadAt_file e mem k' off' bufferSize b1
                  else Inr (mem, b1)) of
              Inl res \<Rightarrow> res
            | Inr (got, b2) \<Rightarrow> (got, (if length got < k then Some EOF else None), b2)))"

subsection \<open>Next, Len, Cap, Reset\<close>

text \<open>
  \<^verbatim>\<open>Next\<close>: \<^verbatim>\<open>make([]byte, n)\<close> panics (\<^verbatim>\<open>makeslice: len out of range\<close>) on a negative
  length and on a length beyond what the runtime can allocate. That bound depends on the
  platform, so it is the argument \<open>lim\<close>: the largest length for which \<^verbatim>\<open>make\<close> returns.
  Then \<^verbatim>\<open>b.buff.Read(slice)\<close> on an empty \<^verbatim>\<open>bytes.Buffer\<close> returns \<^verbatim>\<open>io.EOF\<close> unless the
  slice is empty, and \<^verbatim>\<open>Next\<close> panics on any error.
\<close>

definition Next :: "int \<Rightarrow> int \<Rightarrow> buffer \<Rightarrow> (byte list \<times> buffer) outcome" where
  "Next lim n b =
     (if n < 0 \<or> lim < n then Panic
      else if buff b = [] then (if n = 0 then Return ([], b) else Panic)
      else Return (take (nat n) (buff b), b\<lparr>buff := drop (nat n) (buff b)\<rparr>))"

definition Len :: "buffer \<Rightarrow> int" where
  "Len b = size_b b - offset b"

definition Cap :: "buffer \<Rightarrow> int" where
  "Cap b = Len b"

definition Reset :: "buffer \<Rightarrow> buffer" where
  "Reset b =
     (let b1 = b\<lparr>buff := []\<rparr>;
          b2 = (if filename b1 \<noteq> [] then b1\<lparr>disk := (disk b1)(filename b1 := None)\<rparr> else b1)
      in b2\<lparr>writingFinished := False, readingFinished := False, writeFile := None,
            readFile := None, useFile := False, filename := []\<rparr>)"

subsection \<open>Callers\<close>

text \<open>
  What a caller does with the buffer, as the tests of the repository do it
  (\<^verbatim>\<open>writeByChunks\<close>, \<^verbatim>\<open>readByChunks\<close>, \<^verbatim>\<open>newBufWithSize\<close>).
\<close>

text \<open>A buffer after construction, with \<^verbatim>\<open>EnableEncryption\<close> called on it or not.\<close>

definition configure :: "bool \<Rightarrow> buffer \<Rightarrow> buffer" where
  "configure enc b = (if enc then snd (EnableEncryption True b) else b)"

text \<open>A sequence of \<^verbatim>\<open>Write\<close> calls, each of which must return a nil error.\<close>

fun write_all :: "(env \<times> byte list) list \<Rightarrow> buffer \<Rightarrow> buffer option" where
  "write_all [] b = Some b"
| "write_all ((e, data) # ws) b =
     (case Write e data b of
        Panic \<Rightarrow> None
      | Return (n, er, b') \<Rightarrow> (case er of None \<Rightarrow> write_all ws b' | Some x \<Rightarrow> None))"

text \<open>
  A sequence of \<^verbatim>\<open>Read\<close> calls, one per element of the list, with the slice length of
  each. It stops at the first call that returns an error (\<^verbatim>\<open>io.EOF\<close> included) and
  returns the bytes collected so far, those of the last call included, with that error.
  \<open>None\<close>: the calls ran out before any of them signalled the end.
\<close>

fun read_chunks :: "(env \<times> nat) list \<Rightarrow> buffer \<Rightarrow> (byte list \<times> err \<times> buffer) option" where
  "read_chunks [] b = None"
| "read_chunks ((e, k) # rs) b =
     (case Read e k b of
        (got, er, b') \<Rightarrow>
          (case er of
             Some x \<Rightarrow> Some (got, x, b')
           | None \<Rightarrow>
               (case read_chunks rs b' of
                  None \<Rightarrow> None
                | Some (rest, x, b'') \<Rightarrow> Some (got @ rest, x, b''))))"

text \<open>A script of calls on one buffer and what each call returns.\<close>

datatype call =
    CWrite env "byte list"
  | CRead env nat
  | CReadAt env nat int
  | CNext int int
  | CReset
  | CLen

datatype reply =
    RWrite int "err option"
  | RRead "byte list" "err option"
  | RReadAt "byte list" "err option"
  | RNext "byte list"
  | RReset
  | RLen int

fun step :: "call \<Rightarrow> buffer \<Rightarrow> (reply \<times> buffer) outcome" where
  "step (CWrite e data) b =
     (case Write e data b of Panic \<Rightarrow> Panic | Return (n, er, b') \<Rightarrow> Return (RWrite n er, b'))"
| "step (CRead e k) b = (case Read e k b of (got, er, b') \<Rightarrow> Return (RRead got er, b'))"
| "step (CReadAt e k off) b =
     (case ReadAt e k off b of (got, er, b') \<Rightarrow> Return (RReadAt got er, b'))"
| "step (CNext lim n) b =
     (case Next lim n b of Panic \<Rightarrow> Panic | Return (got, b') \<Rightarrow> Return (RNext got, b'))"
| "step CReset b = Return (RReset, Reset b)"
| "step CLen b = Return (RLen (Len b), b)"

fun run :: "call list \<Rightarrow> buffer \<Rightarrow> reply list outcome" where
  "run [] b = Return []"
| "run (c # cs) b =
     (case step c b of
        Panic \<Rightarrow> Panic
      | Return (r, b') \<Rightarrow> (case run cs b' of Panic \<Rightarrow> Panic | Return rs \<Rightarrow> Return (r # rs)))"

text \<open>The allocation bound of the Go runtime on 64-bit Linux, for the scripts below.\<close>

definition maxAlloc :: int where
  "maxAlloc = 2 ^ 48"

definition no_files :: "string \<rightharpoonup> byte list" where
  "no_files = Map.empty"

text \<open>A script on a new buffer with threshold \<open>t\<close>, on a disk without files.\<close>

definition session :: "int \<Rightarrow> call list \<Rightarrow> reply list outcome" where
  "session t cs =
     (case NewBufferWithMaxMemorySize no_files t of Panic \<Rightarrow> Panic | Return b \<Rightarrow> run cs b)"

text \<open>An environment in which nothing fails: the disk takes 64 bytes per write.\<close>

definition env_ok :: env where
  "env_ok = \<lparr> tempfile = Some ''go-disk-buffer-1.tmp'', cipher_ok = True, disk_room = 64,
               open_ok = True, read_ok = True \<rparr>"

text \<open>An environment in which the temporary file cannot be created.\<close>

definition env_no_tmp :: env where
  "env_no_tmp = \<lparr> tempfile = None, cipher_ok = True, disk_room = 64,
                   open_ok = True, read_ok = True \<rparr>"

subsection \<open>Invariants\<close>

text \<open>
  \<open>wrote fs t S b\<close>: the buffer \<open>b\<close> with threshold \<open>t\<close>, created on the disk \<open>fs\<close>, has
  accepted the bytes \<open>S\<close> and was not read yet.
\<close>

definition wrote :: "(string \<rightharpoonup> byte list) \<Rightarrow> int \<Rightarrow> byte list \<Rightarrow> buffer \<Rightarrow> bool" where
  "wrote fs t S b \<longleftrightarrow>
     maxInMemorySize b = t \<and> \<not> writingFinished b \<and> \<not> readingFinished b \<and>
     size_b b = int (length S) \<and> offset b = 0 \<and> readFile b = None \<and>
     buff b = take (nat t) S \<and> (useFile b \<longleftrightarrow> int (length S) > t) \<and>
     (if useFile b
      then (\<exists>w. writeFile b = Some w \<and> writer_name w = filename b) \<and>
           disk b (filename b) = Some (drop (nat t) S)
      else writeFile b = None \<and> filename b = [] \<and> disk b = fs)"

text \<open>What the read handle of \<open>b\<close> has not delivered yet: the file from its position on.\<close>

definition file_rest :: "buffer \<Rightarrow> byte list" where
  "file_rest b =
     (case disk b (filename b) of
        None \<Rightarrow> []
      | Some c \<Rightarrow> drop (case readFile b of None \<Rightarrow> 0 | Some r \<Rightarrow> reader_pos r) c)"

text \<open>
  \<open>reading R b\<close>: the sequential path of \<open>b\<close> still has exactly the bytes \<open>R\<close> to deliver,
  first those of the memory tier, then the rest of the file.
\<close>

definition reading :: "byte list \<Rightarrow> buffer \<Rightarrow> bool" where
  "reading R b \<longleftrightarrow>
     (if readingFinished b then R = []
      else if useFile b then
        disk b (filename b) \<noteq> None \<and>
        (\<forall>r. readFile b = Some r \<longrightarrow> reader_name r = filename b) \<and>
        R = buff b @ file_rest b
      else R = buff b)"

section \<open>Properties\<close>

subsection \<open>The state after a sequence of writes\<close>

lemma nat_minus_int: "nat (a - int k) = nat a - k"
  by arith

lemma wrote_start:
  "NewBufferWithMaxMemorySize fs t = Return b0 \<Longrightarrow> 0 \<le> t \<Longrightarrow> wrote fs t [] (configure enc b0)"
  by (auto simp: NewBufferWithMaxMemorySize_def configure_def EnableEncryption_def wrote_def
           split: if_splits)

lemma Write_wrote:
  assumes "wrote fs t S b" "0 \<le> t" "Write e data b = Return (n, None, b')"
  shows "wrote fs t (S @ data) b'"
  using assms
  by (auto simp: wrote_def Write_def Write_file_def file_Write_def Let_def nat_minus_int
        split: if_splits option.splits prod.splits)

lemma write_all_wrote:
  "wrote fs t S b \<Longrightarrow> 0 \<le> t \<Longrightarrow> write_all ws b = Some b'
     \<Longrightarrow> wrote fs t (S @ concat (map snd ws)) b'"
proof (induction ws arbitrary: S b)
  case Nil
  then show ?case by simp
next
  case (Cons w ws)
  obtain e d where w: "w = (e, d)" by (cases w)
  from Cons.prems(3) w obtain n b1 where
    st: "Write e d b = Return (n, None, b1)" and rest: "write_all ws b1 = Some b'"
    by (auto split: outcome.splits option.splits)
  from Write_wrote [OF Cons.prems(1,2) st] have "wrote fs t (S @ d) b1" .
  from Cons.IH [OF this Cons.prems(2) rest] show ?case by (simp add: w)
qed

lemma written_state:
  assumes "NewBufferWithMaxMemorySize fs t = Return b0"
    and "0 \<le> t"
    and "write_all ws (configure enc b0) = Some b"
  shows "wrote fs t (concat (map snd ws)) b"
  using write_all_wrote [OF wrote_start [OF assms(1,2)] assms(2,3)] by simp

subsection \<open>C3: the threshold boundary\<close>

text \<open>
  C3. On a new buffer with threshold \<open>t \<ge> 0\<close>, after any sequence of \<^verbatim>\<open>Write\<close> calls that
  all returned a nil error and whose payloads concatenate to \<open>S\<close>: if \<open>S\<close> has at most
  \<open>t\<close> bytes (exactly \<open>t\<close> included), no file is used, no file name is set and the disk is
  as it was; if \<open>S\<close> has \<open>t + 1\<close> bytes or more, the file is in use, the memory tier holds
  exactly the first \<open>t\<close> bytes of \<open>S\<close> and the file holds exactly the other
  \<open>length S - t\<close> bytes.
\<close>

theorem threshold_boundary:
  assumes "NewBufferWithMaxMemorySize fs t = Return b0"
    and "0 \<le> t"
    and "write_all ws (configure enc b0) = Some b"
  shows "(int (length (concat (map snd ws))) \<le> t \<longrightarrow>
            \<not> useFile b \<and> filename b = [] \<and> disk b = fs \<and> buff b = concat (map snd ws)) \<and>
         (int (length (concat (map snd ws))) > t \<longrightarrow>
            useFile b \<and> int (length (buff b)) = t \<and>
            buff b = take (nat t) (concat (map snd ws)) \<and>
            disk b (filename b) = Some (drop (nat t) (concat (map snd ws))) \<and>
            int (length (drop (nat t) (concat (map snd ws)))) =
              int (length (concat (map snd ws))) - t)"
proof -
  have w: "wrote fs t (concat (map snd ws)) b"
    using assms by (rule written_state)
  show ?thesis
  proof (cases "int (length (concat (map snd ws))) \<le> t")
    case True
    with w show ?thesis by (auto simp: wrote_def)
  next
    case False
    with w assms(2) show ?thesis by (auto simp: wrote_def)
  qed
qed

theorem threshold_boundary_witness:
  "\<exists>b0 b. NewBufferWithMaxMemorySize no_files 5 = Return b0 \<and>
     write_all [(env_ok, [49, 50, 51]), (env_ok, [52, 53, 54]), (env_ok, [55, 56, 57])]
       (configure False b0) = Some b \<and>
     useFile b \<and> buff b = [49, 50, 51, 52, 53] \<and> disk b (filename b) = Some [54, 55, 56, 57]"
proof -
  obtain b0 where n: "NewBufferWithMaxMemorySize no_files 5 = Return b0"
    by (simp add: NewBufferWithMaxMemorySize_def)
  obtain b where w: "write_all [(env_ok, [49, 50, 51]), (env_ok, [52, 53, 54]), (env_ok, [55, 56, 57])]
       (configure False b0) = Some b"
    using n by (auto simp: NewBufferWithMaxMemorySize_def configure_def Write_def Write_file_def
        file_Write_def env_ok_def Let_def)
  from threshold_boundary [OF n _ w]
  have "useFile b \<and> buff b = [49, 50, 51, 52, 53] \<and> disk b (filename b) = Some [54, 55, 56, 57]"
    by simp
  with n w show ?thesis by blast
qed

subsection \<open>C1: the sequential round trip\<close>

lemma wrote_reading: "wrote fs t S b \<Longrightarrow> reading S b"
  by (auto simp: wrote_def reading_def file_rest_def)

lemma file_Read_cases:
  assumes "d (reader_name r) = Some c" "read_ok e" "0 < k"
  shows "file_Read e k r d =
           (if drop (reader_pos r) c = [] then ([], Some EOF, r)
            else (take k (drop (reader_pos r) c), None,
                  reader_advance (length (take k (drop (reader_pos r) c))) r))"
  using assms by (simp add: file_Read_def Let_def)

lemma reader_advance_simps [simp]:
  "reader_name (reader_advance n r) = reader_name r"
  "reader_pos (reader_advance n r) = reader_pos r + n"
  by (cases r; simp)+

lemma drop_min_length [simp]: "drop (min (length c) k) c = drop k c"
  by (simp add: min_def)

lemma drop_min_length2 [simp]: "drop (p + min (length c - p) k) c = drop (k + p) c"
  by (auto simp: min_def add.commute)

lemma readFromFile_reading:
  assumes "disk b (filename b) \<noteq> None"
    and "\<forall>r. readFile b = Some r \<longrightarrow> reader_name r = filename b"
    and "open_ok e" "cipher_ok e" "read_ok e" "0 < k"
    and "readFromFile e k b = (got, er, b')"
  shows "\<exists>r'. b' = b\<lparr>readFile := Some r'\<rparr> \<and> reader_name r' = filename b \<and>
           ((er = Some EOF \<and> got = [] \<and> file_rest b = []) \<or>
            (er = None \<and> got \<noteq> [] \<and> got = take k (file_rest b) \<and>
             file_rest b' = drop k (file_rest b)))"
proof -
  from assms(1) obtain c where c: "disk b (filename b) = Some c" by auto
  show ?thesis
  proof (cases "readFile b")
    case None
    define r where "r = (if encrypt b then DecryptReader (filename b) 0 else OsFile (filename b) 0)"
    have rn: "reader_name r = filename b" and rp: "reader_pos r = 0" by (simp_all add: r_def)
    have fr: "file_rest b = c" using None c by (simp add: file_rest_def)
    have "readFromFile e k b =
            (case file_Read e k r (disk b) of (got, er, r') \<Rightarrow> (got, er, b\<lparr>readFile := Some r'\<rparr>))"
      using None c assms(3,4) by (simp add: readFromFile_def r_def Let_def)
    also have "file_Read e k r (disk b) = (if c = [] then ([], Some EOF, r)
            else (take k c, None, reader_advance (length (take k c)) r))"
      using file_Read_cases [of "disk b" r c e k] c rn rp assms(5,6) by simp
    finally show ?thesis
      using assms(6,7) c rn rp fr
      by (auto simp: file_rest_def split: if_splits)
  next
    case (Some r)
    with assms(2) have rn: "reader_name r = filename b" by simp
    have fr: "file_rest b = drop (reader_pos r) c" using Some c by (simp add: file_rest_def)
    have "readFromFile e k b =
            (case file_Read e k r (disk b) of (got, er, r') \<Rightarrow> (got, er, b\<lparr>readFile := Some r'\<rparr>))"
      using Some by (simp add: readFromFile_def)
    also have "file_Read e k r (disk b) = (if drop (reader_pos r) c = [] then ([], Some EOF, r)
            else (take k (drop (reader_pos r) c), None,
                  reader_advance (length (take k (drop (reader_pos r) c))) r))"
      using file_Read_cases [of "disk b" r c e k] c rn assms(5,6) by simp
    finally show ?thesis
      using assms(6,7) c rn fr
      by (auto simp: file_rest_def split: if_splits)
  qed
qed


lemma Read_deferred_reading:
  assumes "\<not> readingFinished b" "Read_deferred k got er b = (g, x, b')"
  shows "g = got \<and> x = er \<and>
         (if length got < k then readingFinished b' else reading R b' = reading R b)"
  using assms
  by (auto simp: Read_deferred_def Let_def reading_def file_rest_def split: if_splits)

lemma Read_reading:
  assumes "reading R b" "open_ok e" "cipher_ok e" "read_ok e" "0 < k"
    and "Read e k b = (got, er, b')"
  shows "(er = None \<and> got \<noteq> [] \<and> got = take k R \<and> reading (drop k R) b') \<or>
         (er = Some EOF \<and> got = R)"
proof (cases "readingFinished b")
  case True
  with assms(1,6) show ?thesis by (simp add: reading_def Read_def)
next
  case nf: False
  define b1 where "b1 = finish_writing b"
  have b1: "readingFinished b1 = readingFinished b" "useFile b1 = useFile b"
    "buff b1 = buff b" "file_rest b1 = file_rest b" "disk b1 = disk b" "filename b1 = filename b"
    "readFile b1 = readFile b"
    by (simp_all add: b1_def finish_writing_def file_rest_def split: option.splits)
  show ?thesis
  proof (cases "buff b = []")
    case empty: True
    show ?thesis
    proof (cases "useFile b")
      case False
      with nf empty assms(1,6) show ?thesis
        by (simp add: Read_def Read_deferred_def Let_def reading_def b1 [unfolded b1_def])
    next
      case True
      obtain g x b2 where rf: "readFromFile e k b1 = (g, x, b2)" by (cases "readFromFile e k b1")
      have R: "R = file_rest b" and dk: "disk b (filename b) \<noteq> None"
        and rn: "\<forall>r. readFile b = Some r \<longrightarrow> reader_name r = filename b"
        using assms(1) nf True empty by (simp_all add: reading_def)
      from readFromFile_reading [OF _ _ assms(2,3,4,5) rf] dk rn b1
      obtain r' where b2: "b2 = b1\<lparr>readFile := Some r'\<rparr>" and rn': "reader_name r' = filename b"
        and alt: "(x = Some EOF \<and> g = [] \<and> file_rest b = []) \<or>
            (x = None \<and> g \<noteq> [] \<and> g = take k (file_rest b) \<and>
             file_rest b2 = drop k (file_rest b))"
        by auto
      have rd: "Read e k b = Read_deferred k g x b2"
        using nf empty True rf b1 by (simp add: Read_def Let_def b1_def [symmetric])
      have nf2: "\<not> readingFinished b2" using b2 b1 nf by simp
      from Read_deferred_reading [OF nf2, of k g x got er b' "drop k R"] rd assms(6)
      have res: "got = g" "er = x"
        and fin: "if length g < k then readingFinished b' else reading (drop k R) b' = reading (drop k R) b2"
        by auto
      from alt show ?thesis
      proof
        assume "x = Some EOF \<and> g = [] \<and> file_rest b = []"
        with res R show ?thesis by simp
      next
        assume a: "x = None \<and> g \<noteq> [] \<and> g = take k (file_rest b) \<and> file_rest b2 = drop k (file_rest b)"
        have "reading (drop k R) b2"
          using a b2 b1 nf True empty dk rn' R by (simp add: reading_def)
        moreover have "length g < k \<Longrightarrow> drop k R = []" using a R by simp
        ultimately have "reading (drop k R) b'"
          using fin by (auto simp: reading_def split: if_splits)
        with a res R assms(5) show ?thesis by auto
      qed
    qed
  next
    case nonempty: False
    define b2 where "b2 = b1\<lparr>buff := drop k (buff b)\<rparr>"
    have b2: "readingFinished b2 = readingFinished b" "useFile b2 = useFile b"
      "buff b2 = drop k (buff b)" "file_rest b2 = file_rest b" "disk b2 = disk b"
      "filename b2 = filename b" "readFile b2 = readFile b"
      using b1 by (simp_all add: b2_def file_rest_def split: option.splits)
    have nf2: "\<not> readingFinished b2" using b2 nf by simp
    show ?thesis
    proof (cases "length (take k (buff b)) = k \<or> \<not> useFile b")
      case True
      have rd: "Read e k b = Read_deferred k (take k (buff b)) None b2"
        using nf nonempty True b1 b2(2)
        by (auto simp add: Read_def Let_def b1_def [symmetric] b2_def [symmetric])
      from Read_deferred_reading [OF nf2, of k "take k (buff b)" None got er b' "drop k R"]
        rd assms(6)
      have res: "got = take k (buff b)" "er = None"
        and fin: "if length (take k (buff b)) < k then readingFinished b'
                  else reading (drop k R) b' = reading (drop k R) b2"
        by auto
      have gne: "got \<noteq> []" using res nonempty assms(5) by simp
      show ?thesis
      proof (cases "length (take k (buff b)) = k")
        case full: True
        then have le: "k \<le> length (buff b)" by simp
        have "reading (drop k R) b2"
          using assms(1) nf b2 le by (auto simp: reading_def)
        with fin full have "reading (drop k R) b'" by simp
        moreover have "got = take k R"
          using assms(1) nf le res by (auto simp: reading_def split: if_splits)
        ultimately show ?thesis using res gne by simp
      next
        case short: False
        with True have nu: "\<not> useFile b" by blast
        from short have lt: "length (buff b) < k" by simp
        have R: "R = buff b" using assms(1) nf nu by (simp add: reading_def)
        from fin lt have "readingFinished b'" by simp
        then have "reading (drop k R) b'" using R lt by (simp add: reading_def)
        then show ?thesis using res gne R lt by simp
      qed
    next
      case False
      then have uf: "useFile b" and lt: "length (buff b) < k" by auto
      have R: "R = buff b @ file_rest b" and dk: "disk b (filename b) \<noteq> None"
        and rn: "\<forall>r. readFile b = Some r \<longrightarrow> reader_name r = filename b"
        using assms(1) nf uf by (simp_all add: reading_def)
      obtain g x b3 where rf: "readFromFile e (k - length (buff b)) b2 = (g, x, b3)"
        by (cases "readFromFile e (k - length (buff b)) b2")
      have kpos: "0 < k - length (buff b)" using lt by simp
      from readFromFile_reading [OF _ _ assms(2,3,4) kpos rf] dk rn b2
      obtain r' where b3: "b3 = b2\<lparr>readFile := Some r'\<rparr>" and rn': "reader_name r' = filename b"
        and alt: "(x = Some EOF \<and> g = [] \<and> file_rest b = []) \<or>
            (x = None \<and> g \<noteq> [] \<and> g = take (k - length (buff b)) (file_rest b) \<and>
             file_rest b3 = drop (k - length (buff b)) (file_rest b))"
        by auto
      have b2e: "b1\<lparr>buff := []\<rparr> = b2" using lt by (simp add: b2_def)
      have rd: "Read e k b = Read_deferred k (buff b @ g) x b3"
        using nf nonempty False b1 b2(2) rf lt
        by (auto simp add: Read_def Let_def b1_def [symmetric] b2e)
      have nf3: "\<not> readingFinished b3" using b3 nf2 by simp
      from Read_deferred_reading [OF nf3, of k "buff b @ g" x got er b' "drop k R"] rd assms(6)
      have res: "got = buff b @ g" "er = x"
        and fin: "if length (buff b @ g) < k then readingFinished b'
                  else reading (drop k R) b' = reading (drop k R) b3"
        by auto
      from alt show ?thesis
      proof
        assume "x = Some EOF \<and> g = [] \<and> file_rest b = []"
        with res R show ?thesis by simp
      next
        assume a: "x = None \<and> g \<noteq> [] \<and> g = take (k - length (buff b)) (file_rest b) \<and>
             file_rest b3 = drop (k - length (buff b)) (file_rest b)"
        have dr: "drop k R = drop (k - length (buff b)) (file_rest b)"
          using R lt by simp
        have "reading (drop k R) b3"
          using a b3 b2 nf uf dk rn' dr lt by (simp add: reading_def)
        moreover have "length (buff b @ g) < k \<Longrightarrow> drop k R = []" using a dr by simp
        ultimately have "reading (drop k R) b'"
          using fin by (auto simp: reading_def split: if_splits)
        moreover have "got = take k R" using res a R lt by simp
        ultimately show ?thesis using a res nonempty R assms(5) by auto
      qed
    qed
  qed
qed


lemma read_chunks_reading:
  "reading R b \<Longrightarrow> \<forall>(e, k) \<in> set rs. open_ok e \<and> cipher_ok e \<and> read_ok e \<and> 0 < k
     \<Longrightarrow> length R < length rs
     \<Longrightarrow> \<exists>b'. read_chunks rs b = Some (R, EOF, b')"
proof (induction rs arbitrary: R b)
  case Nil
  then show ?case by simp
next
  case (Cons c rs)
  obtain e k where c: "c = (e, k)" by (cases c)
  obtain got er b1 where rd: "Read e k b = (got, er, b1)" by (cases "Read e k b")
  from Cons.prems(2) c have ok: "open_ok e" "cipher_ok e" "read_ok e" "0 < k" by auto
  from Read_reading [OF Cons.prems(1) ok rd]
  show ?case
  proof
    assume a: "er = None \<and> got \<noteq> [] \<and> got = take k R \<and> reading (drop k R) b1"
    then have "length (drop k R) < length R" using ok(4) by (cases R) auto
    with Cons.prems(3) have "length (drop k R) < length rs" by simp
    with Cons.IH [of "drop k R" b1] a Cons.prems(2)
    obtain b' where "read_chunks rs b1 = Some (drop k R, EOF, b')" by auto
    with a rd c show ?case by simp
  next
    assume "er = Some EOF \<and> got = R"
    with rd c show ?case by simp
  qed
qed

text \<open>
  C1. On a new buffer with threshold \<open>t \<ge> 0\<close>, with or without encryption, after any
  sequence of \<^verbatim>\<open>Write\<close> calls that all returned a nil error and whose payloads concatenate
  to \<open>S\<close>: any sequence of \<^verbatim>\<open>Read\<close> calls with positive slice lengths (not necessarily
  equal), in an environment where the file opens and reads, reaches a call that signals
  \<^verbatim>\<open>io.EOF\<close> after at most \<open>length S + 1\<close> calls, and the bytes returned up to and
  including that call concatenate to exactly \<open>S\<close>, whether \<open>S\<close> fitted the memory tier
  or overflowed into the file.
\<close>

theorem sequential_round_trip:
  assumes "NewBufferWithMaxMemorySize fs t = Return b0"
    and "0 \<le> t"
    and "write_all ws (configure enc b0) = Some b"
    and "\<forall>(e, k) \<in> set rs. open_ok e \<and> cipher_ok e \<and> read_ok e \<and> 0 < k"
    and "length (concat (map snd ws)) < length rs"
  shows "\<exists>b'. read_chunks rs b = Some (concat (map snd ws), EOF, b')"
proof -
  have "wrote fs t (concat (map snd ws)) b"
    using assms(1,2,3) by (rule written_state)
  then have "reading (concat (map snd ws)) b"
    by (rule wrote_reading)
  from read_chunks_reading [OF this assms(4,5)] show ?thesis .
qed

theorem sequential_round_trip_witness:
  "\<exists>b0 b b'. NewBufferWithMaxMemorySize no_files 5 = Return b0 \<and>
     write_all [(env_ok, [49, 50, 51]), (env_ok, [52, 53, 54]), (env_ok, [55, 56, 57])]
       (configure False b0) = Some b \<and>
     read_chunks (replicate 10 (env_ok, 10)) b
       = Some ([49, 50, 51, 52, 53, 54, 55, 56, 57], EOF, b')"
proof -
  obtain b0 where n: "NewBufferWithMaxMemorySize no_files 5 = Return b0"
    by (simp add: NewBufferWithMaxMemorySize_def)
  obtain b where w: "write_all [(env_ok, [49, 50, 51]), (env_ok, [52, 53, 54]), (env_ok, [55, 56, 57])]
       (configure False b0) = Some b"
    using n by (auto simp: NewBufferWithMaxMemorySize_def configure_def Write_def Write_file_def
        file_Write_def env_ok_def Let_def)
  have g: "\<forall>(e, k) \<in> set (replicate 10 (env_ok, 10 :: nat)).
             open_ok e \<and> cipher_ok e \<and> read_ok e \<and> 0 < k"
    by (simp add: env_ok_def)
  from sequential_round_trip [OF n _ w g]
  obtain b' where "read_chunks (replicate 10 (env_ok, 10)) b
       = Some ([49, 50, 51, 52, 53, 54, 55, 56, 57], EOF, b')"
    by auto
  with n w show ?thesis by blast
qed

subsection \<open>C2: random-access reads across the two tiers\<close>

lemma take_drop_split:
  fixes S :: "'a list"
  assumes "p < T" "T - p < k"
  shows "drop p (take T S) @ take (k - (T - p)) (drop T S) = take k (drop p S)"
proof -
  have "take k (drop p S) = take (T - p) (drop p S) @ take (k - (T - p)) (drop (T - p) (drop p S))"
    using assms by (metis add_diff_inverse_nat less_imp_le_nat not_less take_add)
  also have "take (T - p) (drop p S) = drop p (take T S)"
    by (simp add: drop_take)
  also have "drop (T - p) (drop p S) = drop T S"
    using assms by simp
  finally show ?thesis by simp
qed

lemma ReadAt_wrote_nat:
  assumes w: "wrote fs (int T) S b"
    and big: "T < length S"
    and rng: "p + k \<le> length S"
    and ok: "open_ok e" "cipher_ok e" "read_ok e"
  shows "\<exists>b'. ReadAt e k (int p) b = (take k (drop p S), None, b')"
proof (cases "k = 0")
  case True
  then show ?thesis by (simp add: ReadAt_def)
next
  case False
  then have kpos: "0 < k" by simp
  define b1 where "b1 = finish_writing b"
  have f: "size_b b = int (length S)" "buff b1 = take T S" "useFile b1" "readFile b1 = None"
    "disk b1 (filename b1) = Some (drop T S)"
    using w big by (auto simp: wrote_def b1_def finish_writing_def)
  have len: "length (buff b1) = T" using f big by simp
  have off: "\<not> int p \<ge> size_b b" using f rng kpos by simp
  show ?thesis
  proof (cases "p < T")
    case inmem: True
    show ?thesis
    proof (cases "k \<le> T - p")
      case True
      then have m: "min (int T - int p) (int k) = int k" using inmem by arith
      have "take k (drop p (take T S)) = take k (drop p S)"
        using True inmem by (simp add: drop_take)
      moreover have "length (take k (drop p S)) = k" using rng by simp
      ultimately show ?thesis
        using off kpos inmem f len m
        by (simp add: ReadAt_def Let_def b1_def [symmetric])
    next
      case False
      then have lt: "T - p < k" by simp
      then have m: "min (int T - int p) (int k) = int (T - p)" using inmem by arith
      have mem: "take (T - p) (drop p (take T S)) = drop p (take T S)" by simp
      have lm: "length (drop p (take T S)) = T - p" using big by simp
      have st: "drop p (take T S) @ take (k - (T - p)) (drop T S) = take k (drop p S)"
        using inmem lt by (rule take_drop_split)
      have lk: "length (take k (drop p S)) = k" using rng by simp
      have "k - (T - p) = k + p - T" using inmem lt by arith
      with st have st': "drop p (take T S) @ take (k + p - T) (drop T S) = take k (drop p S)"
        by simp
      have nle: "\<not> k + p \<le> T" using inmem lt by arith
      show ?thesis
        using off kpos inmem f len m lt ok lk nle
        by (simp add: ReadAt_def Let_def b1_def [symmetric] mem lm ReadAt_file_def
            file_ReadAt_def st')
    qed
  next
    case False
    then have ge: "T \<le> p" by simp
    have d: "drop (p - T) (drop T S) = drop p S" using ge by simp
    have lk: "length (take k (drop p S)) = k" using rng by simp
    show ?thesis
      using off kpos False f len ok lk ge
      by (simp add: ReadAt_def Let_def b1_def [symmetric] ReadAt_file_def file_ReadAt_def
          nat_minus_int)
  qed
qed

text \<open>
  C2. On a new buffer with threshold \<open>t \<ge> 0\<close>, after writes that all returned a nil error
  and whose payloads concatenate to \<open>S\<close> with more than \<open>t\<close> bytes, and before any other
  call: \<^verbatim>\<open>ReadAt\<close> with a slice of length \<open>k\<close> at an offset \<open>off \<ge> 0\<close> with
  \<open>off + k \<le> length S\<close>, in an environment where the file opens and reads, stores exactly
  the bytes \<open>S[off : off + k]\<close>, reports \<open>k\<close> bytes and returns a nil error, wherever the
  range lies with respect to the boundary between memory and file.
\<close>

theorem cross_tier_stitching:
  assumes "NewBufferWithMaxMemorySize fs t = Return b0"
    and "0 \<le> t"
    and "write_all ws (configure enc b0) = Some b"
    and "t < int (length (concat (map snd ws)))"
    and "0 \<le> off"
    and "off + int k \<le> int (length (concat (map snd ws)))"
    and "open_ok e" "cipher_ok e" "read_ok e"
  shows "\<exists>b'. ReadAt e k off b = (take k (drop (nat off) (concat (map snd ws))), None, b') \<and>
              length (take k (drop (nat off) (concat (map snd ws)))) = k"
proof -
  have w: "wrote fs (int (nat t)) (concat (map snd ws)) b"
    using written_state [OF assms(1,2,3)] assms(2) by simp
  have big: "nat t < length (concat (map snd ws))" using assms(2,4) by simp
  have rng: "nat off + k \<le> length (concat (map snd ws))" using assms(5,6) by simp
  from ReadAt_wrote_nat [OF w big rng assms(7,8,9)] assms(5) rng
  show ?thesis by simp
qed

theorem cross_tier_stitching_witness:
  "\<exists>b0 b b'. NewBufferWithMaxMemorySize no_files 2 = Return b0 \<and>
     write_all [(env_ok, [72, 101, 108, 108, 111, 44, 32, 119, 111, 114, 108, 100, 33])]
       (configure False b0) = Some b \<and>
     ReadAt env_ok 3 1 b = ([101, 108, 108], None, b')"
proof -
  obtain b0 where n: "NewBufferWithMaxMemorySize no_files 2 = Return b0"
    by (simp add: NewBufferWithMaxMemorySize_def)
  obtain b where w: "write_all [(env_ok, [72, 101, 108, 108, 111, 44, 32, 119, 111, 114, 108, 100, 33])]
       (configure False b0) = Some b"
    using n by (auto simp: NewBufferWithMaxMemorySize_def configure_def Write_def Write_file_def
        file_Write_def env_ok_def Let_def)
  have e: "open_ok env_ok" "cipher_ok env_ok" "read_ok env_ok" by (simp_all add: env_ok_def)
  from cross_tier_stitching [OF n _ w _ _ _ e, of 1 3]
  obtain b' where "ReadAt env_ok 3 1 b = ([101, 108, 108], None, b')" by auto
  with n w show ?thesis by blast
qed

subsection \<open>What each call does to the counters\<close>

lemma Write_size:
  "Write e data b = Return (n, er, b') \<Longrightarrow> size_b b' = size_b b + n \<and> offset b' = offset b"
  by (auto simp: Write_def Write_file_def file_Write_def Let_def
      split: if_splits option.splits prod.splits)

lemma Read_deferred_counts:
  "Read_deferred k got er b = (g, x, b') \<Longrightarrow>
     g = got \<and> size_b b' = size_b b \<and> offset b' = offset b + int (length got)"
  by (auto simp: Read_deferred_def Let_def split: if_splits)

lemma readFromFile_counts:
  "readFromFile e k b = (got, er, b') \<Longrightarrow> size_b b' = size_b b \<and> offset b' = offset b"
  by (auto simp: readFromFile_def Let_def split: option.splits if_splits prod.splits)

lemma Read_counts:
  assumes "Read e k b = (got, er, b')"
  shows "size_b b' = size_b b \<and> offset b' = offset b + int (length got)"
proof (cases "readingFinished b")
  case True
  with assms show ?thesis by (simp add: Read_def)
next
  case False
  define b1 where "b1 = finish_writing b"
  have b1: "size_b b1 = size_b b" "offset b1 = offset b"
    by (simp_all add: b1_def finish_writing_def)
  show ?thesis
  proof (cases "buff b1 \<noteq> []")
    case ne: True
    define b2 where "b2 = b1\<lparr>buff := drop k (buff b1)\<rparr>"
    have b2: "size_b b2 = size_b b" "offset b2 = offset b" using b1 by (simp_all add: b2_def)
    show ?thesis
    proof (cases "length (take k (buff b1)) = k \<or> \<not> useFile b2")
      case True
      with assms False ne have "Read_deferred k (take k (buff b1)) None b2 = (got, er, b')"
        by (simp add: Read_def Let_def b1_def [symmetric] b2_def [symmetric])
      from Read_deferred_counts [OF this] b2 show ?thesis by simp
    next
      case nf: False
      obtain g x b3 where rf: "readFromFile e (k - length (take k (buff b1))) b2 = (g, x, b3)"
        by (cases "readFromFile e (k - length (take k (buff b1))) b2")
      with assms False ne nf have "Read_deferred k (take k (buff b1) @ g) x b3 = (got, er, b')"
        by (simp add: Read_def Let_def b1_def [symmetric] b2_def [symmetric])
      from Read_deferred_counts [OF this] readFromFile_counts [OF rf] b2 show ?thesis by simp
    qed
  next
    case em: False
    show ?thesis
    proof (cases "useFile b1")
      case True
      obtain g x b3 where rf: "readFromFile e k b1 = (g, x, b3)"
        by (cases "readFromFile e k b1")
      with assms False em True have "Read_deferred k g x b3 = (got, er, b')"
        by (simp add: Read_def Let_def b1_def [symmetric])
      from Read_deferred_counts [OF this] readFromFile_counts [OF rf] b1 show ?thesis by simp
    next
      case nu: False
      with assms False em have "Read_deferred k [] (Some EOF) b1 = (got, er, b')"
        by (simp add: Read_def Let_def b1_def [symmetric])
      from Read_deferred_counts [OF this] b1 show ?thesis by simp
    qed
  qed
qed

lemma ReadAt_file_frame:
  "ReadAt_file e mem k off bs b = Inl (got, er, b') \<Longrightarrow>
     size_b b' = size_b b \<and> offset b' = offset b \<and> readingFinished b' = readingFinished b \<and>
     buff b' = buff b"
  "ReadAt_file e mem k off bs b = Inr (got, b') \<Longrightarrow>
     size_b b' = size_b b \<and> offset b' = offset b \<and> readingFinished b' = readingFinished b \<and>
     buff b' = buff b"
  by (auto simp: ReadAt_file_def Let_def split: if_splits prod.splits)

lemma ReadAt_frame:
  assumes "ReadAt e k off b = (got, er, b')"
  shows "size_b b' = size_b b \<and> offset b' = offset b \<and>
         readingFinished b' = readingFinished b \<and> buff b' = buff b"
proof -
  define b1 where "b1 = finish_writing b"
  have b1: "size_b b1 = size_b b" "offset b1 = offset b" "readingFinished b1 = readingFinished b"
    "buff b1 = buff b"
    by (simp_all add: b1_def finish_writing_def)
  show ?thesis
    using assms b1 ReadAt_file_frame [of e _ _ _ _ b1]
    by (auto simp: ReadAt_def Let_def b1_def [symmetric] split: if_splits sum.splits prod.splits)
qed

lemma read_chunks_counts:
  "read_chunks rs b = Some (got, x, b') \<Longrightarrow>
     size_b b' = size_b b \<and> offset b' = offset b + int (length got)"
proof (induction rs arbitrary: b got)
  case Nil
  then show ?case by simp
next
  case (Cons c rs)
  obtain e k where c: "c = (e, k)" by (cases c)
  obtain g er b1 where rd: "Read e k b = (g, er, b1)" by (cases "Read e k b")
  note cnt = Read_counts [OF rd]
  show ?case
  proof (cases er)
    case None
    with Cons.prems c rd obtain rest where
      r: "read_chunks rs b1 = Some (rest, x, b')" and g: "got = g @ rest"
      by (auto split: option.splits)
    from Cons.IH [OF r] cnt g show ?thesis by simp
  next
    case (Some y)
    with Cons.prems c rd cnt show ?thesis by auto
  qed
qed

subsection \<open>C8: length accounting\<close>

text \<open>
  C8. \<^verbatim>\<open>Len()\<close> is \<^verbatim>\<open>size - offset\<close> in every state and \<^verbatim>\<open>Cap()\<close> is \<^verbatim>\<open>Len()\<close>. A
  \<^verbatim>\<open>Write\<close> that reports \<open>n\<close> bytes raises it by \<open>n\<close>, a \<^verbatim>\<open>Read\<close> that returns \<open>r\<close> bytes
  lowers it by \<open>r\<close>, and \<^verbatim>\<open>ReadAt\<close> leaves it as it is. In particular, on a new buffer,
  after writes that returned a nil error and whose payloads have \<open>k\<close> bytes in all,
  \<^verbatim>\<open>Len()\<close> is \<open>k\<close>, and after any sequence of sequential reads that returned \<open>r\<close> bytes
  in all it is \<open>k - r\<close>.
\<close>

theorem length_accounting:
  "Len c = size_b c - offset c \<and> Cap c = Len c \<and>
   (Write e1 data c = Return (n, er1, c1) \<longrightarrow> Len c1 = Len c + n) \<and>
   (Read e2 k2 c = (got2, er2, c2) \<longrightarrow> Len c2 = Len c - int (length got2)) \<and>
   (ReadAt e3 k3 off c = (got3, er3, c3) \<longrightarrow> Len c3 = Len c) \<and>
   (NewBufferWithMaxMemorySize fs t = Return b0 \<and> 0 \<le> t \<and>
    write_all ws (configure enc b0) = Some b \<longrightarrow>
      Len b = int (length (concat (map snd ws))) \<and>
      (\<forall>rs got x b'. read_chunks rs b = Some (got, x, b') \<longrightarrow>
         Len b' = int (length (concat (map snd ws))) - int (length got)))"
proof (intro conjI impI allI)
  show "Len c = size_b c - offset c" by (simp add: Len_def)
  show "Cap c = Len c" by (simp add: Cap_def)
next
  assume "Write e1 data c = Return (n, er1, c1)"
  from Write_size [OF this] show "Len c1 = Len c + n" by (simp add: Len_def)
next
  assume "Read e2 k2 c = (got2, er2, c2)"
  from Read_counts [OF this] show "Len c2 = Len c - int (length got2)" by (simp add: Len_def)
next
  assume "ReadAt e3 k3 off c = (got3, er3, c3)"
  from ReadAt_frame [OF this] show "Len c3 = Len c" by (simp add: Len_def)
next
  assume a: "NewBufferWithMaxMemorySize fs t = Return b0 \<and> 0 \<le> t \<and>
    write_all ws (configure enc b0) = Some b"
  then have w: "wrote fs t (concat (map snd ws)) b" using written_state by blast
  then show l: "Len b = int (length (concat (map snd ws)))" by (simp add: wrote_def Len_def)
  fix rs got x b'
  assume "read_chunks rs b = Some (got, x, b')"
  from read_chunks_counts [OF this] l
  show "Len b' = int (length (concat (map snd ws))) - int (length got)" by (simp add: Len_def)
qed

theorem length_accounting_witness:
  "\<exists>b0 b n1 er1 c1 got2 er2 c2 got3 er3 c3 b'.
     NewBufferWithMaxMemorySize no_files 5 = Return b0 \<and>
     write_all [(env_ok, [49, 50, 51]), (env_ok, [52, 53, 54]), (env_ok, [55, 56, 57])]
       (configure False b0) = Some b \<and> Len b = 9 \<and> Cap b = 9 \<and>
     Write env_ok [58] b = Return (n1, er1, c1) \<and> Len c1 = 9 + n1 \<and>
     Read env_ok 4 b = (got2, er2, c2) \<and> Len c2 = 9 - int (length got2) \<and>
     ReadAt env_ok 4 3 b = (got3, er3, c3) \<and> Len c3 = 9 \<and>
     read_chunks (replicate 10 (env_ok, 10)) b
       = Some ([49, 50, 51, 52, 53, 54, 55, 56, 57], EOF, b') \<and> Len b' = 0"
proof -
  obtain b0 where n: "NewBufferWithMaxMemorySize no_files 5 = Return b0"
    by (simp add: NewBufferWithMaxMemorySize_def)
  obtain b where w: "write_all [(env_ok, [49, 50, 51]), (env_ok, [52, 53, 54]), (env_ok, [55, 56, 57])]
       (configure False b0) = Some b"
    using n by (auto simp: NewBufferWithMaxMemorySize_def configure_def Write_def Write_file_def
        file_Write_def env_ok_def Let_def)
  have wr: "wrote no_files 5 [49, 50, 51, 52, 53, 54, 55, 56, 57] b"
    using written_state [OF n _ w] by simp
  obtain n1 er1 c1 where s1: "Write env_ok [58] b = Return (n1, er1, c1)"
    using wr by (auto simp: wrote_def Write_def Write_file_def file_Write_def env_ok_def Let_def)
  obtain got2 er2 c2 where s2: "Read env_ok 4 b = (got2, er2, c2)"
    by (cases "Read env_ok 4 b")
  obtain got3 er3 c3 where s3: "ReadAt env_ok 4 3 b = (got3, er3, c3)"
    by (cases "ReadAt env_ok 4 3 b")
  have g: "\<forall>(e, k) \<in> set (replicate 10 (env_ok, 10 :: nat)).
             open_ok e \<and> cipher_ok e \<and> read_ok e \<and> 0 < k"
    by (simp add: env_ok_def)
  from read_chunks_reading [OF wrote_reading [OF wr] g]
  obtain b' where s4: "read_chunks (replicate 10 (env_ok, 10)) b
       = Some ([49, 50, 51, 52, 53, 54, 55, 56, 57], EOF, b')"
    by auto
  note la = length_accounting [of b env_ok "[58]" n1 er1 c1 env_ok 4 got2 er2 c2 env_ok 4 3 got3 er3 c3
      no_files 5 b0 "[(env_ok, [49, 50, 51]), (env_ok, [52, 53, 54]), (env_ok, [55, 56, 57])]" False b]
  from la n w have l: "Len b = 9" by simp
  from la l have c: "Cap b = 9" by simp
  from la s1 l have l1: "Len c1 = 9 + n1" by simp
  from la s2 l have l2: "Len c2 = 9 - int (length got2)" by simp
  from la s3 l have l3: "Len c3 = 9" by simp
  from la n w s4 have l4: "Len b' = 0" by simp
  from n w l c s1 l1 s2 l2 s3 l3 s4 l4 show ?thesis by blast
qed

subsection \<open>C9: Next drains memory without moving the cursor\<close>

lemma buff_update_same: "buff b = xs \<Longrightarrow> b\<lparr>buff := xs\<rparr> = b"
  by (cases b) auto

lemma file_rest_buff [simp]: "file_rest (b\<lparr>buff := xs\<rparr>) = file_rest b"
  by (simp add: file_rest_def split: option.splits)

lemma take_min_length: "take (min (length xs) n) xs = take n xs"
  by (simp add: min_def)

lemma Next_reading:
  assumes "Next lim n b = Return (got, b')" "reading R b"
  shows "reading (drop (length got) R) b'"
proof -
  from assms(1) have n0: "0 \<le> n" by (auto simp: Next_def split: if_splits)
  show ?thesis
  proof (cases "buff b = []")
    case True
    with assms show ?thesis by (auto simp: Next_def split: if_splits)
  next
    case False
    with assms(1) n0 have g: "got = take (nat n) (buff b)"
      and b': "b' = b\<lparr>buff := drop (nat n) (buff b)\<rparr>"
      by (auto simp: Next_def split: if_splits)
    have d: "drop (length got) (buff b) = drop (nat n) (buff b)"
      by (simp add: g min_def)
    have le: "length got \<le> length (buff b)" by (simp add: g)
    show ?thesis
      using assms(2) le d
      by (auto simp: reading_def b')
  qed
qed

text \<open>
  C9. Whenever \<^verbatim>\<open>Next(n)\<close> returns a slice of \<open>k\<close> bytes, \<^verbatim>\<open>size\<close> and \<^verbatim>\<open>offset\<close>, hence
  \<^verbatim>\<open>Len()\<close>, are what they were; the slice is the first \<open>k\<close> unread bytes of the memory
  tier, and the only change of state is that the memory tier lost them. No later
  sequential read returns them: where the sequential path had the bytes \<open>R\<close> to deliver
  before the call, reading until \<^verbatim>\<open>io.EOF\<close> after it delivers \<open>R\<close> without its first \<open>k\<close>
  bytes.
\<close>

theorem Next_keeps_counters:
  assumes "Next lim n b = Return (got, b')"
  shows "size_b b' = size_b b \<and> offset b' = offset b \<and> Len b' = Len b \<and>
         got = take (length got) (buff b) \<and> b' = b\<lparr>buff := drop (length got) (buff b)\<rparr> \<and>
         (reading R b \<and> (\<forall>(e, k) \<in> set rs. open_ok e \<and> cipher_ok e \<and> read_ok e \<and> 0 < k) \<and>
          length R < length rs \<longrightarrow>
            (\<exists>b''. read_chunks rs b' = Some (drop (length got) R, EOF, b'')))"
proof -
  from assms have n0: "0 \<le> n" by (auto simp: Next_def split: if_splits)
  have upd: "got = take (length got) (buff b) \<and> b' = b\<lparr>buff := drop (length got) (buff b)\<rparr>"
  proof (cases "buff b = []")
    case True
    with assms show ?thesis by (auto simp: Next_def buff_update_same split: if_splits)
  next
    case False
    with assms n0 have g: "got = take (nat n) (buff b)"
      and b': "b' = b\<lparr>buff := drop (nat n) (buff b)\<rparr>"
      by (auto simp: Next_def split: if_splits)
    have "drop (length got) (buff b) = drop (nat n) (buff b)" by (simp add: g min_def)
    with g b' show ?thesis by (simp add: take_min_length)
  qed
  then have b': "b' = b\<lparr>buff := drop (length got) (buff b)\<rparr>" by simp
  have cnt: "size_b b' = size_b b \<and> offset b' = offset b \<and> Len b' = Len b"
    by (subst (1 2 3) b') (simp add: Len_def)
  have seq: "reading R b \<and> (\<forall>(e, k) \<in> set rs. open_ok e \<and> cipher_ok e \<and> read_ok e \<and> 0 < k) \<and>
          length R < length rs \<longrightarrow>
            (\<exists>b''. read_chunks rs b' = Some (drop (length got) R, EOF, b''))"
  proof
    assume a: "reading R b \<and> (\<forall>(e, k) \<in> set rs. open_ok e \<and> cipher_ok e \<and> read_ok e \<and> 0 < k) \<and>
          length R < length rs"
    then have "reading (drop (length got) R) b'" using Next_reading [OF assms] by simp
    moreover have "length (drop (length got) R) < length rs" using a by auto
    ultimately show "\<exists>b''. read_chunks rs b' = Some (drop (length got) R, EOF, b'')"
      using a read_chunks_reading by blast
  qed
  from cnt upd seq show ?thesis by blast
qed


theorem Next_keeps_counters_witness:
  "\<exists>b0 b b' b''. NewBufferWithMaxMemorySize no_files 2 = Return b0 \<and>
     write_all [(env_ok, [72, 101, 108, 108, 111])] (configure False b0) = Some b \<and>
     Next maxAlloc 1 b = Return ([72], b') \<and> Len b = 5 \<and> Len b' = 5 \<and>
     read_chunks (replicate 6 (env_ok, 2)) b' = Some ([101, 108, 108, 111], EOF, b'')"
proof -
  obtain b0 where n: "NewBufferWithMaxMemorySize no_files 2 = Return b0"
    by (simp add: NewBufferWithMaxMemorySize_def)
  obtain b where w: "write_all [(env_ok, [72, 101, 108, 108, 111])] (configure False b0) = Some b"
    using n by (auto simp: NewBufferWithMaxMemorySize_def configure_def Write_def Write_file_def
        file_Write_def env_ok_def Let_def)
  have wr: "wrote no_files 2 [72, 101, 108, 108, 111] b"
    using written_state [OF n _ w] by simp
  then have l: "Len b = 5" by (simp add: wrote_def Len_def)
  obtain b' where nx: "Next maxAlloc 1 b = Return ([72], b')"
    using wr by (simp add: wrote_def Next_def maxAlloc_def)
  have g: "\<forall>(e, k) \<in> set (replicate 6 (env_ok, 2 :: nat)).
             open_ok e \<and> cipher_ok e \<and> read_ok e \<and> 0 < k"
    by (simp add: env_ok_def)
  from Next_keeps_counters [OF nx, of "[72, 101, 108, 108, 111]" "replicate 6 (env_ok, 2)"]
    wrote_reading [OF wr] g l
  obtain b'' where "Len b' = 5"
    and "read_chunks (replicate 6 (env_ok, 2)) b' = Some ([101, 108, 108, 111], EOF, b'')"
    by auto
  with n w nx l show ?thesis by blast
qed

subsection \<open>C10: a failed Write still counts what it stored\<close>

text \<open>
  C10. Every \<^verbatim>\<open>Write\<close> that returns \<open>(n, err)\<close> raises \<^verbatim>\<open>size\<close> by exactly \<open>n\<close>, whether
  \<open>err\<close> is nil or not. In particular, when the payload does not fit the memory tier and
  the temporary file cannot be created, the call returns the number of bytes that did fit
  with an error, and these bytes stay in the memory tier and in \<^verbatim>\<open>size\<close> (and
  \<^verbatim>\<open>useFile\<close> stays set): the state is partially updated.
\<close>

theorem Write_counts_what_it_reports:
  "(Write e data b = Return (n, er, b') \<longrightarrow> size_b b' = size_b b + n) \<and>
   (\<not> writingFinished b \<and> \<not> useFile b \<and> int (length (buff b)) \<le> maxInMemorySize b \<and>
    maxInMemorySize b < int (length (buff b)) + int (length data) \<and> tempfile e = None \<longrightarrow>
      Write e data b =
        Return (maxInMemorySize b - int (length (buff b)), Some ErrTempFile,
                b\<lparr>buff := buff b @ take (nat (maxInMemorySize b - int (length (buff b)))) data,
                  useFile := True,
                  size_b := size_b b + (maxInMemorySize b - int (length (buff b)))\<rparr>))"
proof (intro conjI impI)
  assume "Write e data b = Return (n, er, b')"
  from Write_size [OF this] show "size_b b' = size_b b + n" by simp
next
  assume "\<not> writingFinished b \<and> \<not> useFile b \<and> int (length (buff b)) \<le> maxInMemorySize b \<and>
    maxInMemorySize b < int (length (buff b)) + int (length data) \<and> tempfile e = None"
  then show "Write e data b =
        Return (maxInMemorySize b - int (length (buff b)), Some ErrTempFile,
                b\<lparr>buff := buff b @ take (nat (maxInMemorySize b - int (length (buff b)))) data,
                  useFile := True,
                  size_b := size_b b + (maxInMemorySize b - int (length (buff b)))\<rparr>)"
    by (simp add: Write_def Let_def)
qed

theorem Write_counts_what_it_reports_witness:
  "\<exists>b0 b'. NewBufferWithMaxMemorySize no_files 2 = Return b0 \<and>
     Write env_no_tmp [72, 101, 108, 108, 111] b0 = Return (2, Some ErrTempFile, b') \<and>
     size_b b' = size_b b0 + 2 \<and> buff b' = [72, 101] \<and> useFile b'"
proof -
  obtain b0 where n: "NewBufferWithMaxMemorySize no_files 2 = Return b0"
    by (simp add: NewBufferWithMaxMemorySize_def)
  then have f: "\<not> writingFinished b0" "\<not> useFile b0" "buff b0 = []" "maxInMemorySize b0 = 2"
    by (auto simp: NewBufferWithMaxMemorySize_def)
  define b' where "b' = b0\<lparr>buff := [72, 101], useFile := True, size_b := size_b b0 + 2\<rparr>"
  note t = Write_counts_what_it_reports [of env_no_tmp "[72, 101, 108, 108, 111]" b0 2
      "Some ErrTempFile" b']
  from t f have w: "Write env_no_tmp [72, 101, 108, 108, 111] b0 = Return (2, Some ErrTempFile, b')"
    by (simp add: env_no_tmp_def b'_def)
  with t have "size_b b' = size_b b0 + 2" by simp
  moreover have "buff b' = [72, 101] \<and> useFile b'" by (simp add: b'_def)
  ultimately show ?thesis using n w by blast
qed

subsection \<open>C7: Next on the memory tier\<close>

text \<open>
  C7, as claimed, fails: on a new buffer, whose memory tier is empty, \<^verbatim>\<open>Next(1)\<close> panics.
\<close>

theorem Next_on_empty_memory_panics: "session 10 [CNext maxAlloc 1] = Panic"
  by (simp add: session_def NewBufferWithMaxMemorySize_def Next_def maxAlloc_def)

text \<open>
  C7, amended. For every state, every allocation bound \<open>lim\<close> and every \<open>n\<close>:
  \<^verbatim>\<open>Next(n)\<close> panics when \<open>n\<close> is negative or beyond the bound (the slice cannot be made),
  and when \<open>0 < n \<le> lim\<close> and the memory tier is empty. Otherwise, that is for
  \<open>0 \<le> n \<le> lim\<close> with a non-empty memory tier or \<open>n = 0\<close>, it returns the first
  \<open>min n (length buff)\<close> unread bytes of the memory tier, without an error, and changes
  nothing but the memory tier. It never reads the file, also when the file holds bytes.
\<close>

theorem Next_from_memory_only:
  "(n < 0 \<or> lim < n \<longrightarrow> Next lim n b = Panic) \<and>
   (0 < n \<and> n \<le> lim \<and> buff b = [] \<longrightarrow> Next lim n b = Panic) \<and>
   (0 \<le> n \<and> n \<le> lim \<and> (buff b \<noteq> [] \<or> n = 0) \<longrightarrow>
      Next lim n b = Return (take (nat n) (buff b), b\<lparr>buff := drop (nat n) (buff b)\<rparr>) \<and>
      int (length (take (nat n) (buff b))) = min n (int (length (buff b))))"
  by (auto simp: Next_def buff_update_same)

theorem Next_from_memory_only_witness:
  "\<exists>b0 b b'. NewBufferWithMaxMemorySize no_files 2 = Return b0 \<and>
     write_all [(env_ok, [72, 101, 108, 108, 111])] (configure False b0) = Some b \<and>
     disk b (filename b) = Some [108, 108, 111] \<and>
     Next maxAlloc 4 b = Return ([72, 101], b') \<and> disk b' = disk b \<and>
     Next maxAlloc 1 b' = Panic \<and>
     Next maxAlloc (maxAlloc + 1) b = Panic \<and> Next maxAlloc (- 1) b = Panic"
proof -
  obtain b0 where n: "NewBufferWithMaxMemorySize no_files 2 = Return b0"
    by (simp add: NewBufferWithMaxMemorySize_def)
  obtain b where w: "write_all [(env_ok, [72, 101, 108, 108, 111])] (configure False b0) = Some b"
    using n by (auto simp: NewBufferWithMaxMemorySize_def configure_def Write_def Write_file_def
        file_Write_def env_ok_def Let_def)
  have wr: "wrote no_files 2 [72, 101, 108, 108, 111] b"
    using written_state [OF n _ w] by simp
  then have bf: "buff b = [72, 101]" and dk: "disk b (filename b) = Some [108, 108, 111]"
    by (auto simp: wrote_def split: if_splits)
  define b' where "b' = b\<lparr>buff := drop (nat 4) (buff b)\<rparr>"
  from Next_from_memory_only [of 4 maxAlloc b] bf
  have nx: "Next maxAlloc 4 b = Return ([72, 101], b')"
    by (simp add: b'_def maxAlloc_def)
  have e: "buff b' = []" and d: "disk b' = disk b" by (simp_all add: b'_def bf)
  from Next_from_memory_only [of 1 maxAlloc b'] e have p1: "Next maxAlloc 1 b' = Panic"
    by (simp add: maxAlloc_def)
  from Next_from_memory_only [of "maxAlloc + 1" maxAlloc b]
  have p2: "Next maxAlloc (maxAlloc + 1) b = Panic" by simp
  from Next_from_memory_only [of "- 1" maxAlloc b]
  have p3: "Next maxAlloc (- 1) b = Panic" by simp
  from n w dk nx d p1 p2 p3 show ?thesis by blast
qed

subsection \<open>C4: a write after a read\<close>

text \<open>What does hold: after a \<^verbatim>\<open>Read\<close> on a buffer that was not exhausted, writes are rejected.\<close>

lemma Read_finishes_writing:
  assumes "Read e k b = (got, er, b')" "\<not> readingFinished b"
  shows "writingFinished b'"
proof -
  have d: "\<And>k g x c r. Read_deferred k g x c = r \<Longrightarrow> writingFinished (snd (snd r)) = writingFinished c"
    by (auto simp: Read_deferred_def Let_def)
  have f: "\<And>k c r. readFromFile e k c = r \<Longrightarrow> writingFinished (snd (snd r)) = writingFinished c"
    by (auto simp: readFromFile_def Let_def split: option.splits prod.splits)
  have w: "writingFinished (finish_writing b)" by (simp add: finish_writing_def)
  define b1 where "b1 = finish_writing b"
  from w have w1: "writingFinished b1" by (simp add: b1_def)
  show ?thesis
  proof (cases "buff b1 \<noteq> []")
    case ne: True
    define b2 where "b2 = b1\<lparr>buff := drop k (buff b1)\<rparr>"
    have w2: "writingFinished b2" using w1 by (simp add: b2_def)
    show ?thesis
    proof (cases "length (take k (buff b1)) = k \<or> \<not> useFile b2")
      case True
      with assms ne have "Read_deferred k (take k (buff b1)) None b2 = (got, er, b')"
        by (simp add: Read_def Let_def b1_def [symmetric] b2_def [symmetric])
      from d [OF this] w2 show ?thesis by simp
    next
      case False
      obtain g x b3 where rf: "readFromFile e (k - length (take k (buff b1))) b2 = (g, x, b3)"
        by (cases "readFromFile e (k - length (take k (buff b1))) b2")
      with assms ne False have "Read_deferred k (take k (buff b1) @ g) x b3 = (got, er, b')"
        by (simp add: Read_def Let_def b1_def [symmetric] b2_def [symmetric])
      from d [OF this] f [OF rf] w2 show ?thesis by simp
    qed
  next
    case em: False
    show ?thesis
    proof (cases "useFile b1")
      case True
      obtain g x b3 where rf: "readFromFile e k b1 = (g, x, b3)"
        by (cases "readFromFile e k b1")
      with assms em True have "Read_deferred k g x b3 = (got, er, b')"
        by (simp add: Read_def Let_def b1_def [symmetric])
      from d [OF this] f [OF rf] w1 show ?thesis by simp
    next
      case False
      with assms em have "Read_deferred k [] (Some EOF) b1 = (got, er, b')"
        by (simp add: Read_def Let_def b1_def [symmetric])
      from d [OF this] w1 show ?thesis by simp
    qed
  qed
qed

lemma Write_rejected_when_finished:
  "writingFinished b \<Longrightarrow> Write e data b = Return (0, Some ErrBufferFinished, b)"
  by (simp add: Write_def)

text \<open>
  C4. The claim fails for \<^verbatim>\<open>Next\<close>, which never sets \<^verbatim>\<open>writingFinished\<close>: on a new
  buffer with threshold 10, after writing three bytes and taking one with \<^verbatim>\<open>Next(1)\<close>, a
  further \<^verbatim>\<open>Write\<close> of one byte is accepted (one byte, nil error) and \<^verbatim>\<open>Len()\<close> is 4.
  The same happens after a \<^verbatim>\<open>ReadAt\<close> that returns early, here one with an empty slice.
\<close>

theorem Write_after_Next_accepted:
  "session 10 [CWrite env_ok [97, 98, 99], CNext maxAlloc 1, CWrite env_ok [100], CLen]
     = Return [RWrite 3 None, RNext [97], RWrite 1 None, RLen 4] \<and>
   session 10 [CWrite env_ok [97, 98, 99], CReadAt env_ok 0 0, CWrite env_ok [100], CLen]
     = Return [RWrite 3 None, RReadAt [] None, RWrite 1 None, RLen 4]"
  by (simp add: session_def NewBufferWithMaxMemorySize_def env_ok_def Write_def Next_def
      maxAlloc_def ReadAt_def Len_def)

subsection \<open>C5: Reset\<close>

text \<open>
  C5. The claim fails: \<^verbatim>\<open>Reset\<close> leaves \<^verbatim>\<open>size\<close> and \<^verbatim>\<open>offset\<close> as they are. On a new
  buffer with threshold 10, after writing three bytes and calling \<^verbatim>\<open>Reset()\<close>, \<^verbatim>\<open>Len()\<close>
  is 3, not 0, although a sequential read finds nothing.
\<close>

theorem Len_after_Reset_not_zero:
  "session 10 [CWrite env_ok [97, 98, 99], CReset, CLen, CRead env_ok 4, CLen]
     = Return [RWrite 3 None, RReset, RLen 3, RRead [] (Some EOF), RLen 3]"
  by (simp add: session_def NewBufferWithMaxMemorySize_def env_ok_def Write_def Reset_def
      Read_def Read_deferred_def finish_writing_def Len_def Let_def)

subsection \<open>C6: ReadAt and the sequential cursor\<close>

text \<open>
  C6. The first half holds (lemma \<open>ReadAt_frame\<close>: \<^verbatim>\<open>ReadAt\<close> changes neither \<^verbatim>\<open>offset\<close>
  nor \<^verbatim>\<open>readingFinished\<close>). The second half fails: \<^verbatim>\<open>ReadAt\<close> takes the memory tier to be
  the unread part of the \<^verbatim>\<open>bytes.Buffer\<close>, which a sequential \<^verbatim>\<open>Read\<close> shortens. On a new
  buffer with threshold 10 holding the three bytes 97, 98, 99, \<^verbatim>\<open>ReadAt\<close> of two bytes at
  offset 0 returns 97, 98 with a nil error; after a \<^verbatim>\<open>Read\<close> of two bytes, the same
  \<^verbatim>\<open>ReadAt\<close> returns the single byte 99 with \<^verbatim>\<open>io.EOF\<close>.
\<close>

theorem ReadAt_after_Read_differs:
  "session 10 [CWrite env_ok [97, 98, 99], CReadAt env_ok 2 0, CRead env_ok 2, CReadAt env_ok 2 0]
     = Return [RWrite 3 None, RReadAt [97, 98] None, RRead [97, 98] None, RReadAt [99] (Some EOF)]"
  by (simp add: session_def NewBufferWithMaxMemorySize_def env_ok_def Write_def
      Read_def Read_deferred_def finish_writing_def ReadAt_def Let_def)

end
